theory Spec2Isabelle
  imports Main "HOL-Library.Word"
begin

section \<open>The sequence tracker of imapserver (conn.go)\<close>

text \<open>
  Sequence numbers, message counts and UIDs are Go \<open>uint32\<close> values: 32-bit words whose
  \<open>+\<close> and \<open>-\<close> wrap around and whose order is the unsigned one.
\<close>

type_synonym u32 = "32 word"
type_synonym Flag = string
type_synonym UID = u32

subsection \<open>Data\<close>

text \<open>
  \<open>trackerUpdate\<close> and \<open>trackerUpdateFetch\<close> are the Go structs. A nil slice and a nil
  pointer are \<open>None\<close>; the kind of an update is read off its fields in the order of the
  source's \<open>switch\<close> statements, 0 meaning "not this kind".
\<close>

record trackerUpdateFetch =
  seqNum :: u32
  uid :: UID
  flags :: "Flag list"

record trackerUpdate =
  expunge :: u32
  numMessages :: u32
  mailboxFlags :: "Flag list option"
  fetch :: "trackerUpdateFetch option"

text \<open>
  A \<open>*SessionTracker\<close> is an address \<open>sid\<close> into the heap of the \<open>world\<close>. The model holds
  one \<open>MailboxTracker\<close>, so the field \<open>mailbox\<close> of a session only records whether the
  pointer is set (\<open>True\<close>) or nil (\<open>False\<close>, after \<open>Close\<close>). The channel \<open>updates\<close> is
  \<open>None\<close> when nil and \<open>Some k\<close> when it is a channel (capacity 64) holding \<open>k\<close> pending
  notifications. The mutexes make each locked section one atomic step; they have no
  field of their own. The count of the mailbox is the field \<open>count\<close> (\<open>numMessages\<close> in
  the source, a name already taken by the update record).
\<close>

type_synonym sid = nat

record SessionTracker =
  mailbox :: bool
  queue :: "trackerUpdate list"
  updates :: "nat option"

record MailboxTracker =
  count :: u32
  sessions :: "sid set"

record world =
  tracker :: MailboxTracker
  heap :: "sid \<Rightarrow> SessionTracker option"
  next_ptr :: sid

datatype panic =
    NilDereference
  | ExpungeOutOfRange u32 u32
  | CannotDecrease u32 u32
  | InvalidExpunge
  | UnknownUpdate
  | SendOnClosedChannel
  | CloseOfClosedChannel

subsection \<open>Creating and closing\<close>

definition NewMailboxTracker :: "u32 \<Rightarrow> world" where
  "NewMailboxTracker n =
     \<lparr>tracker = \<lparr>count = n, sessions = {}\<rparr>, heap = (\<lambda>_. None), next_ptr = 0\<rparr>"

definition NewSession :: "world \<Rightarrow> sid \<times> world" where
  "NewSession w =
     (let st = next_ptr w in
      (st, w\<lparr>heap := (heap w)(st := Some \<lparr>mailbox = True, queue = [], updates = None\<rparr>),
             tracker := (tracker w)\<lparr>sessions := insert st (sessions (tracker w))\<rparr>,
             next_ptr := Suc st\<rparr>))"

definition Close :: "world \<Rightarrow> sid \<Rightarrow> panic + world" where
  "Close w st =
     (case heap w st of
        None \<Rightarrow> Inl NilDereference
      | Some t \<Rightarrow>
          if \<not> mailbox t then Inl NilDereference
          else Inr (w\<lparr>tracker := (tracker w)\<lparr>sessions := sessions (tracker w) - {st}\<rparr>,
                      heap := (heap w)(st := Some (t\<lparr>mailbox := False\<rparr>))\<rparr>))"

subsection \<open>Queueing updates\<close>

text \<open>
  \<open>SessionTracker.queueUpdate\<close>: append to the queue, then a send on \<open>updates\<close> that never
  blocks (it is skipped when the channel is nil or full).
\<close>

definition SessionTracker_queueUpdate :: "trackerUpdate \<Rightarrow> SessionTracker \<Rightarrow> SessionTracker" where
  "SessionTracker_queueUpdate update t =
     t\<lparr>queue := queue t @ [update],
       updates := (case updates t of
                     None \<Rightarrow> None
                   | Some k \<Rightarrow> if k < 64 then Some (Suc k) else Some k)\<rparr>"

text \<open>
  \<open>MailboxTracker.queueUpdate\<close>: the two range checks, the broadcast to every registered
  session but \<open>source\<close>, then the new count.
\<close>

definition MailboxTracker_queueUpdate ::
  "world \<Rightarrow> trackerUpdate \<Rightarrow> sid option \<Rightarrow> panic + world" where
  "MailboxTracker_queueUpdate w update source =
     (let t = tracker w in
      if expunge update \<noteq> 0 \<and> expunge update > count t
        then Inl (ExpungeOutOfRange (expunge update) (count t))
      else if numMessages update \<noteq> 0 \<and> numMessages update < count t
        then Inl (CannotDecrease (count t) (numMessages update))
      else Inr (w\<lparr>heap := (\<lambda>st. if st \<in> sessions t \<and> source \<noteq> Some st
                                  then map_option (SessionTracker_queueUpdate update) (heap w st)
                                  else heap w st),
                  tracker := t\<lparr>count := (if expunge update \<noteq> 0 then count t - 1
                                          else if numMessages update \<noteq> 0 then numMessages update
                                          else count t)\<rparr>\<rparr>))"

definition QueueExpunge :: "world \<Rightarrow> u32 \<Rightarrow> panic + world" where
  "QueueExpunge w n =
     (if n = 0 then Inl InvalidExpunge
      else MailboxTracker_queueUpdate w
             \<lparr>expunge = n, numMessages = 0, mailboxFlags = None, fetch = None\<rparr> None)"

definition QueueNumMessages :: "world \<Rightarrow> u32 \<Rightarrow> panic + world" where
  "QueueNumMessages w n =
     MailboxTracker_queueUpdate w
       \<lparr>expunge = 0, numMessages = n, mailboxFlags = None, fetch = None\<rparr> None"

definition QueueMailboxFlags :: "world \<Rightarrow> Flag list option \<Rightarrow> panic + world" where
  "QueueMailboxFlags w fl =
     MailboxTracker_queueUpdate w
       \<lparr>expunge = 0, numMessages = 0,
        mailboxFlags = Some (case fl of None \<Rightarrow> [] | Some l \<Rightarrow> l), fetch = None\<rparr> None"

definition QueueMessageFlags ::
  "world \<Rightarrow> u32 \<Rightarrow> UID \<Rightarrow> Flag list \<Rightarrow> sid option \<Rightarrow> panic + world" where
  "QueueMessageFlags w n u fl source =
     MailboxTracker_queueUpdate w
       \<lparr>expunge = 0, numMessages = 0, mailboxFlags = None,
        fetch = Some \<lparr>seqNum = n, uid = u, flags = fl\<rparr>\<rparr> source"

subsection \<open>Translating sequence numbers\<close>

text \<open>
  The \<open>range\<close> loop of \<open>DecodeSeqNum\<close>: \<open>None\<close> is the early \<open>return 0\<close>, \<open>Some n\<close> the value
  of \<open>seqNum\<close> when the loop ends.
\<close>

fun decode_range :: "trackerUpdate list \<Rightarrow> u32 \<Rightarrow> u32 option" where
  "decode_range [] n = Some n"
| "decode_range (update # rest) n =
     (if expunge update = 0 then decode_range rest n
      else if n = expunge update then None
      else if n > expunge update then decode_range rest (n - 1)
      else decode_range rest n)"

definition DecodeSeqNum :: "world \<Rightarrow> sid \<Rightarrow> u32 \<Rightarrow> panic + u32" where
  "DecodeSeqNum w st n =
     (if n = 0 then Inr 0
      else case heap w st of
        None \<Rightarrow> Inl NilDereference
      | Some t \<Rightarrow>
          (case decode_range (queue t) n of
             None \<Rightarrow> Inr 0
           | Some m \<Rightarrow>
               if \<not> mailbox t then Inl NilDereference
               else if m > count (tracker w) then Inr 0
               else Inr m))"

text \<open>
  The loop of \<open>EncodeSeqNum\<close> runs \<open>i\<close> from \<open>len(queue) - 1\<close> down to 0; the counter of
  \<open>encode_loop\<close> is \<open>i + 1\<close>, so that 0 ends the loop.
\<close>

fun encode_loop :: "trackerUpdate list \<Rightarrow> nat \<Rightarrow> u32 \<Rightarrow> u32" where
  "encode_loop q 0 n = n"
| "encode_loop q (Suc i) n =
     (let update = q ! i in
      if numMessages update \<noteq> 0 \<and> n = numMessages update then 0
      else if expunge update \<noteq> 0 \<and> n \<ge> expunge update then encode_loop q i (n + 1)
      else encode_loop q i n)"

definition EncodeSeqNum :: "world \<Rightarrow> sid \<Rightarrow> u32 \<Rightarrow> panic + u32" where
  "EncodeSeqNum w st n =
     (if n = 0 then Inr 0
      else case heap w st of
        None \<Rightarrow> Inl NilDereference
      | Some t \<Rightarrow>
          if \<not> mailbox t then Inl NilDereference
          else if n > count (tracker w) then Inr 0
          else Inr (encode_loop (queue t) (length (queue t)) n))"

text \<open>A session is attached when its object exists, points to the mailbox and is registered.\<close>

definition attached :: "world \<Rightarrow> sid \<Rightarrow> bool" where
  "attached w st =
     (case heap w st of None \<Rightarrow> False | Some t \<Rightarrow> mailbox t \<and> st \<in> sessions (tracker w))"

definition queue_of :: "world \<Rightarrow> sid \<Rightarrow> trackerUpdate list" where
  "queue_of w st = (case heap w st of None \<Rightarrow> [] | Some t \<Rightarrow> queue t)"

subsection \<open>The specification's reading of decode\<close>

text \<open>
  Following the words of the specification: replay the pending queue oldest first; a
  pending expunge record whose target equals the number ends with "not found", one whose
  target is smaller decrements the number; then the result is checked against the
  canonical count.
\<close>

fun replay_step :: "u32 option \<Rightarrow> trackerUpdate \<Rightarrow> u32 option" where
  "replay_step None u = None"
| "replay_step (Some n) u =
     (if expunge u = 0 then Some n
      else if expunge u = n then None
      else if expunge u < n then Some (n - 1)
      else Some n)"

definition decode_spec :: "u32 \<Rightarrow> trackerUpdate list \<Rightarrow> u32 \<Rightarrow> u32" where
  "decode_spec c q n =
     (case foldl replay_step (Some n) q of
        None \<Rightarrow> 0
      | Some m \<Rightarrow> if m > c then 0 else m)"

subsection \<open>The specification's reading of encode\<close>

text \<open>
  Following the words of the specification: walk the pending queue newest first; a
  pending grow record whose new count equals the number being encoded makes the result
  0; a pending expunge record whose target is at or below the number increments it.
\<close>

fun encode_step :: "u32 option \<Rightarrow> trackerUpdate \<Rightarrow> u32 option" where
  "encode_step None u = None"
| "encode_step (Some n) u =
     (if numMessages u \<noteq> 0 \<and> numMessages u = n then None
      else if expunge u \<noteq> 0 \<and> expunge u \<le> n then Some (n + 1)
      else Some n)"

definition encode_spec :: "trackerUpdate list \<Rightarrow> u32 \<Rightarrow> u32" where
  "encode_spec q n = (case foldl encode_step (Some n) (rev q) of None \<Rightarrow> 0 | Some m \<Rightarrow> m)"

text \<open>
  A pending queue marks a client-view number as expunged when the replay of the records
  before some pending expunge record turns the number into that record's target.
\<close>

definition marks_expunged :: "trackerUpdate list \<Rightarrow> u32 \<Rightarrow> bool" where
  "marks_expunged q c =
     list_ex (\<lambda>i. expunge (q ! i) \<noteq> 0 \<and>
                  foldl replay_step (Some c) (take i q) = Some (expunge (q ! i)))
       [0..<length q]"

subsection \<open>Delivering updates: the connection's write side\<close>

text \<open>
  What a connection has written is the list \<open>sent\<close> of responses, oldest first. A write
  can fail (a timeout, a reset): \<open>fails_after = Some k\<close> lets \<open>k\<close> more writes succeed and
  the following ones return an error, \<open>None\<close> lets every write succeed. The texts of
  status responses are kept abstract.
\<close>

datatype StatusResponseType = OK | NO | BAD | PREAUTH | BYE

datatype status_text =
    TextCompleted string
  | TextUnrecognized
  | TextSyntaxError string
  | TextInternalError
  | TextOther string

datatype response =
    ExpungeResp u32
  | ExistsResp u32
  | FlagsResp "Flag list"
  | FetchFlagsResp u32 "UID option" "Flag list"
  | StatusResp string StatusResponseType string status_text
  | DataResp string

datatype error =
    ExpungeNotAllowed
  | WriteFailed
  | IdleBusy
  | ImapError StatusResponseType string status_text
  | DecoderExpectError string
  | OtherError string

datatype result = NoError | Failed error | Panicked panic

definition of_error :: "'a \<times> error option \<Rightarrow> 'a \<times> result" where
  "of_error x = (case x of (a, None) \<Rightarrow> (a, NoError) | (a, Some e) \<Rightarrow> (a, Failed e))"

record wire =
  sent :: "response list"
  fails_after :: "nat option"

definition conn_write :: "wire \<Rightarrow> response \<Rightarrow> wire \<times> error option" where
  "conn_write c r =
     (case fails_after c of
        None \<Rightarrow> (c\<lparr>sent := sent c @ [r]\<rparr>, None)
      | Some 0 \<Rightarrow> (c, Some WriteFailed)
      | Some (Suc k) \<Rightarrow> (c\<lparr>sent := sent c @ [r], fails_after := Some k\<rparr>, None))"

text \<open>The \<open>UpdateWriter\<close>: its connection is the \<open>wire\<close> passed along with it.\<close>

record UpdateWriter =
  allowExpunge :: bool

definition WriteExpunge :: "UpdateWriter \<Rightarrow> wire \<Rightarrow> u32 \<Rightarrow> wire \<times> error option" where
  "WriteExpunge uw c n =
     (if \<not> allowExpunge uw then (c, Some ExpungeNotAllowed) else conn_write c (ExpungeResp n))"

definition WriteNumMessages :: "UpdateWriter \<Rightarrow> wire \<Rightarrow> u32 \<Rightarrow> wire \<times> error option" where
  "WriteNumMessages uw c n = conn_write c (ExistsResp n)"

definition WriteMailboxFlags :: "UpdateWriter \<Rightarrow> wire \<Rightarrow> Flag list \<Rightarrow> wire \<times> error option" where
  "WriteMailboxFlags uw c fl = conn_write c (FlagsResp fl)"

definition WriteMessageFlags ::
  "UpdateWriter \<Rightarrow> wire \<Rightarrow> u32 \<Rightarrow> UID \<Rightarrow> Flag list \<Rightarrow> wire \<times> error option" where
  "WriteMessageFlags uw c n u fl =
     conn_write c (FetchFlagsResp n (if u \<noteq> 0 then Some u else None) fl)"

subsection \<open>Poll\<close>

text \<open>
  The scan of \<open>Poll\<close> when expunges are not allowed: the index of the first expunge
  record (\<open>-1\<close> when there is none) and the updates collected before it.
\<close>

fun poll_scan :: "trackerUpdate list \<Rightarrow> nat \<Rightarrow> trackerUpdate list \<Rightarrow> int \<times> trackerUpdate list" where
  "poll_scan [] i acc = (- 1, acc)"
| "poll_scan (update # rest) i acc =
     (if expunge update \<noteq> 0 then (int i, acc) else poll_scan rest (Suc i) (acc @ [update]))"

text \<open>The locked section of \<open>Poll\<close>: the updates taken off the queue and the session left.\<close>

definition Poll_dequeue :: "SessionTracker \<Rightarrow> bool \<Rightarrow> trackerUpdate list \<times> SessionTracker" where
  "Poll_dequeue t allow =
     (if allow then (queue t, t\<lparr>queue := []\<rparr>)
      else (let (stopIndex, ups) = poll_scan (queue t) 0 [] in
            (ups, t\<lparr>queue := (if stopIndex \<ge> 0 then drop (nat stopIndex) (queue t) else [])\<rparr>)))"

text \<open>
  The delivery loop of \<open>Poll\<close>. A \<open>result\<close> is what a Go call ends with: \<open>nil\<close> (\<open>NoError\<close>), an
  error value, or a panic.
\<close>

definition write_update :: "UpdateWriter \<Rightarrow> wire \<Rightarrow> trackerUpdate \<Rightarrow> wire \<times> result" where
  "write_update uw c update =
     (if expunge update \<noteq> 0 then of_error (WriteExpunge uw c (expunge update))
      else if numMessages update \<noteq> 0 then of_error (WriteNumMessages uw c (numMessages update))
      else case mailboxFlags update of
        Some fl \<Rightarrow> of_error (WriteMailboxFlags uw c fl)
      | None \<Rightarrow>
          (case fetch update of
             Some f \<Rightarrow> of_error (WriteMessageFlags uw c (seqNum f) (uid f) (flags f))
           | None \<Rightarrow> (c, Panicked UnknownUpdate)))"

fun write_updates :: "UpdateWriter \<Rightarrow> wire \<Rightarrow> trackerUpdate list \<Rightarrow> wire \<times> result" where
  "write_updates uw c [] = (c, NoError)"
| "write_updates uw c (update # rest) =
     (case write_update uw c update of
        (c', NoError) \<Rightarrow> write_updates uw c' rest
      | (c', r) \<Rightarrow> (c', r))"

definition Poll ::
  "world \<Rightarrow> sid \<Rightarrow> UpdateWriter \<Rightarrow> wire \<Rightarrow> bool \<Rightarrow> world \<times> wire \<times> result" where
  "Poll w st uw c allow =
     (case heap w st of
        None \<Rightarrow> (w, c, Panicked NilDereference)
      | Some t \<Rightarrow>
          (let (ups, t') = Poll_dequeue t allow;
               (c', r) = write_updates uw c ups
           in (w\<lparr>heap := (heap w)(st := Some t')\<rparr>, c', r)))"

text \<open>The response that delivers an update (none for an update of no kind).\<close>

definition delivery :: "trackerUpdate \<Rightarrow> response option" where
  "delivery update =
     (if expunge update \<noteq> 0 then Some (ExpungeResp (expunge update))
      else if numMessages update \<noteq> 0 then Some (ExistsResp (numMessages update))
      else case mailboxFlags update of
        Some fl \<Rightarrow> Some (FlagsResp fl)
      | None \<Rightarrow>
          (case fetch update of
             Some f \<Rightarrow> Some (FetchFlagsResp (seqNum f) (if uid f \<noteq> 0 then Some (uid f) else None) (flags f))
           | None \<Rightarrow> None))"

subsection \<open>Idle\<close>

text \<open>
  \<open>Idle\<close> blocks in a \<open>select\<close>, so it is modelled by its atomic steps: the locked
  prologue \<open>Idle_enter\<close>, one turn of the loop \<open>Idle_select\<close> for the case the scheduler
  picked, and the deferred function \<open>Idle_deferred\<close> that runs when the call ends. The
  channel made by the prologue is the one stored in \<open>updates\<close>, so receiving from it
  takes one notification off that field.
\<close>

definition Idle_enter :: "world \<Rightarrow> sid \<Rightarrow> world \<times> result" where
  "Idle_enter w st =
     (case heap w st of
        None \<Rightarrow> (w, Panicked NilDereference)
      | Some t \<Rightarrow>
          if updates t = None
          then (w\<lparr>heap := (heap w)(st := Some (t\<lparr>updates := Some 0\<rparr>))\<rparr>, NoError)
          else (w, Failed IdleBusy))"

definition Idle_deferred :: "world \<Rightarrow> sid \<Rightarrow> world" where
  "Idle_deferred w st =
     (case heap w st of
        None \<Rightarrow> w
      | Some t \<Rightarrow> w\<lparr>heap := (heap w)(st := Some (t\<lparr>updates := None\<rparr>))\<rparr>)"

datatype idle_event = UpdatesReady | StopClosed

text \<open>
  One turn of the loop: \<open>None\<close> when the loop goes on (also when the picked case cannot
  fire because the channel is empty), \<open>Some r\<close> when \<open>Idle\<close> ends with \<open>r\<close>.
\<close>

definition Idle_select ::
  "world \<Rightarrow> sid \<Rightarrow> UpdateWriter \<Rightarrow> wire \<Rightarrow> idle_event \<Rightarrow> world \<times> wire \<times> result option" where
  "Idle_select w st uw c ev =
     (case ev of
        StopClosed \<Rightarrow> (Idle_deferred w st, c, Some NoError)
      | UpdatesReady \<Rightarrow>
          (case heap w st of
             None \<Rightarrow> (w, c, None)
           | Some t \<Rightarrow>
               (case updates t of
                  Some (Suc k) \<Rightarrow>
                    (case Poll (w\<lparr>heap := (heap w)(st := Some (t\<lparr>updates := Some k\<rparr>))\<rparr>) st uw c True of
                       (w', c', NoError) \<Rightarrow> (w', c', None)
                     | (w', c', r) \<Rightarrow> (Idle_deferred w' st, c', Some r))
                | _ \<Rightarrow> (w, c, None))))"

text \<open>A whole call of \<open>Idle\<close> with nothing else running, for a given order of events.\<close>

fun Idle_loop ::
  "world \<Rightarrow> sid \<Rightarrow> UpdateWriter \<Rightarrow> wire \<Rightarrow> idle_event list \<Rightarrow> world \<times> wire \<times> result option" where
  "Idle_loop w st uw c [] = (w, c, None)"
| "Idle_loop w st uw c (ev # evs) =
     (case Idle_select w st uw c ev of
        (w', c', None) \<Rightarrow> Idle_loop w' st uw c' evs
      | (w', c', Some r) \<Rightarrow> (w', c', Some r))"

definition Idle ::
  "world \<Rightarrow> sid \<Rightarrow> UpdateWriter \<Rightarrow> wire \<Rightarrow> idle_event list \<Rightarrow> world \<times> wire \<times> result option" where
  "Idle w st uw c evs =
     (case Idle_enter w st of
        (w', NoError) \<Rightarrow> Idle_loop w' st uw c evs
      | (w', r) \<Rightarrow> (w', c, Some r))"

subsection \<open>Sequences of tracker operations\<close>

text \<open>
  The operations on a mailbox and its sessions, run one after the other. A panic of
  \<open>QueueExpunge\<close>, \<open>QueueNumMessages\<close> or \<open>Close\<close> comes before any change and ends the
  run; of a \<open>Poll\<close> only what it leaves of the mailbox is kept, its writes go to the
  connection of the polling session.
\<close>

datatype tracker_op =
    OpNewSession
  | OpClose sid
  | OpQueueExpunge u32
  | OpQueueNumMessages u32
  | OpQueueMailboxFlags "Flag list option"
  | OpQueueMessageFlags u32 UID "Flag list" "sid option"
  | OpPoll sid UpdateWriter wire bool

fun run_op :: "world \<Rightarrow> tracker_op \<Rightarrow> panic + world" where
  "run_op w OpNewSession = Inr (snd (NewSession w))"
| "run_op w (OpClose st) = Close w st"
| "run_op w (OpQueueExpunge n) = QueueExpunge w n"
| "run_op w (OpQueueNumMessages n) = QueueNumMessages w n"
| "run_op w (OpQueueMailboxFlags fl) = QueueMailboxFlags w fl"
| "run_op w (OpQueueMessageFlags n u fl source) = QueueMessageFlags w n u fl source"
| "run_op w (OpPoll st uw c allow) = Inr (fst (Poll w st uw c allow))"

fun run_ops :: "world \<Rightarrow> tracker_op list \<Rightarrow> panic + world" where
  "run_ops w [] = Inr w"
| "run_ops w (x # xs) = (case run_op w x of Inl p \<Rightarrow> Inl p | Inr w' \<Rightarrow> run_ops w' xs)"

text \<open>
  Concurrent calls of \<open>Idle\<close> on one session: every caller \<open>tid\<close> has its own writer
  connection; an action is one atomic step of one caller, or an operation of some other
  goroutine on the mailbox.
\<close>

datatype call = NotCalled | Active | Returned result

record idle_sys =
  sys_world :: world
  calls :: "nat \<Rightarrow> call"
  wires :: "nat \<Rightarrow> wire"

datatype action =
    CallIdle nat
  | Select nat idle_event
  | Other tracker_op

definition sys_step :: "sid \<Rightarrow> UpdateWriter \<Rightarrow> idle_sys \<Rightarrow> action \<Rightarrow> idle_sys" where
  "sys_step st uw s a =
     (case a of
        CallIdle tid \<Rightarrow>
          (if calls s tid = NotCalled
           then (case Idle_enter (sys_world s) st of
                   (w', NoError) \<Rightarrow> s\<lparr>sys_world := w', calls := (calls s)(tid := Active)\<rparr>
                 | (w', r) \<Rightarrow> s\<lparr>sys_world := w', calls := (calls s)(tid := Returned r)\<rparr>)
           else s)
      | Select tid ev \<Rightarrow>
          (if calls s tid = Active
           then (case Idle_select (sys_world s) st uw (wires s tid) ev of
                   (w', c', None) \<Rightarrow> s\<lparr>sys_world := w', wires := (wires s)(tid := c')\<rparr>
                 | (w', c', Some r) \<Rightarrow>
                     s\<lparr>sys_world := w', wires := (wires s)(tid := c'),
                       calls := (calls s)(tid := Returned r)\<rparr>)
           else s)
      | Other x \<Rightarrow>
          (case run_op (sys_world s) x of
             Inl p \<Rightarrow> s
           | Inr w' \<Rightarrow> s\<lparr>sys_world := w'\<rparr>))"

definition sys_init :: "world \<Rightarrow> (nat \<Rightarrow> wire) \<Rightarrow> idle_sys" where
  "sys_init w cs = \<lparr>sys_world = w, calls = (\<lambda>_. NotCalled), wires = cs\<rparr>"

definition sys_run :: "sid \<Rightarrow> UpdateWriter \<Rightarrow> idle_sys \<Rightarrow> action list \<Rightarrow> idle_sys" where
  "sys_run st uw s acts = foldl (sys_step st uw) s acts"

definition updates_of :: "world \<Rightarrow> sid \<Rightarrow> nat option" where
  "updates_of w st = (case heap w st of None \<Rightarrow> None | Some t \<Rightarrow> updates t)"

text \<open>
  What holds of the callers of \<open>Idle\<close> on session \<open>st\<close> at every moment: the session
  exists, a call is active exactly when \<open>updates\<close> is set, and no two calls are active.
\<close>

definition idle_inv :: "sid \<Rightarrow> idle_sys \<Rightarrow> bool" where
  "idle_inv st s =
     (heap (sys_world s) st \<noteq> None \<and> st < next_ptr (sys_world s) \<and>
      ((\<exists>a. calls s a = Active) \<longleftrightarrow> updates_of (sys_world s) st \<noteq> None) \<and>
      (\<forall>a b. calls s a = Active \<and> calls s b = Active \<longrightarrow> a = b))"

section \<open>The command loop of the server (conn.go)\<close>

text \<open>
  \<open>readCommand\<close> after the tag and the name of the command have been read (the name in
  upper case, \<open>UID\<close> joined to its sub-command). The handlers of the commands are a
  parameter: a handler may write to the connection, change its state and the mailbox,
  and ends with \<open>nil\<close>, an error or a panic. The session of the connection is the one of
  the in-memory server: \<open>Poll\<close> of a session with no mailbox does nothing, with a mailbox
  it is \<open>Poll\<close> of the mailbox's session tracker.
\<close>

datatype ConnState =
    ConnStateNone
  | ConnStateNotAuthenticated
  | ConnStateAuthenticated
  | ConnStateSelected
  | ConnStateLogout














section \<open>The pending commands of the client (client.go)\<close>

text \<open>
  A Go channel with a buffer: the values it holds, its capacity, whether it is closed.
  A send on a closed channel and a second close panic; a send on a full channel blocks,
  and so does the call that makes it.
\<close>

record 'a chan =
  items :: "'a list"
  cap :: nat
  is_closed :: bool

datatype halt = Panic panic | Blocked

definition make_chan :: "nat \<Rightarrow> 'a chan" where
  "make_chan n = \<lparr>items = [], cap = n, is_closed = False\<rparr>"



text \<open>
  A command object: its \<open>commandBase\<close> (\<open>tag\<close>, \<open>done\<close> under the name \<open>done_ch\<close>,
  \<open>err\<close>), its Go type, and for the commands that stream data the channel of the stream
  (\<open>mailboxes\<close>, \<open>msgs\<close>, \<open>seqNums\<close>, the data kept abstract) and the \<open>pendingData\<close> of a
  \<open>ListCommand\<close>. The tag \<open>T n\<close> is the string made of \<open>T\<close> and the number \<open>n\<close>.
\<close>

datatype tag = T nat | OtherTag string

datatype command_type =
    authenticateCommand
  | loginCommand
  | unauthenticateCommand
  | SelectCommand string
  | unselectCommand
  | logoutCommand
  | ListCommand
  | FetchCommand
  | ExpungeCommand
  | Command

record command =
  tag :: tag
  done_ch :: "error option chan"
  err :: "error option"
  ctype :: command_type
  stream :: "nat chan"
  pendingData :: "nat option"

type_synonym cmdref = nat

text \<open>
  The client: commands are objects in \<open>objs\<close>, shared with the callers that wait on
  them; \<open>net_closed\<close> tells that \<open>conn.Close\<close> was called. A continuation request is
  named by a number; its method \<open>Cancel\<close> belongs to package \<open>imapwire\<close> and is not part
  of these sources, so its effect is left open: each call is recorded in \<open>cancelled\<close>.
\<close>

record Client =
  net_closed :: bool
  cstate :: ConnState
  selected :: "string option"
  enabled :: "string set"
  cmdTag :: nat
  pendingCmds :: "cmdref list"
  contReqs :: "(nat \<times> cmdref) list"
  cancelled :: "(nat \<times> error option) list"
  objs :: "cmdref \<Rightarrow> command option"


definition beginCommand :: "Client \<Rightarrow> cmdref \<Rightarrow> halt + Client" where
  "beginCommand c p =
     (case objs c p of
        None \<Rightarrow> Inl (Panic NilDereference)
      | Some cmd \<Rightarrow>
          Inr (c\<lparr>cmdTag := Suc (cmdTag c),
                 objs := (objs c)(p := Some (cmd\<lparr>tag := T (Suc (cmdTag c)), done_ch := make_chan 1,
                                                 err := None\<rparr>)),
                 pendingCmds := pendingCmds c @ [p]\<rparr>))"

text \<open>The loop of \<open>deletePendingCmdByTag\<close>: the commands passed over, and those left.\<close>

fun delete_by_tag ::
  "(cmdref \<Rightarrow> command option) \<Rightarrow> tag \<Rightarrow> cmdref list \<Rightarrow> cmdref list \<Rightarrow> cmdref option \<times> cmdref list" where
  "delete_by_tag h tg before [] = (None, before)"
| "delete_by_tag h tg before (p # rest) =
     (if map_option tag (h p) = Some tg then (Some p, before @ rest)
      else delete_by_tag h tg (before @ [p]) rest)"

definition deletePendingCmdByTag :: "Client \<Rightarrow> tag \<Rightarrow> cmdref option \<times> Client" where
  "deletePendingCmdByTag c tg =
     (case delete_by_tag (objs c) tg [] (pendingCmds c) of
        (found, rest) \<Rightarrow> (found, c\<lparr>pendingCmds := rest\<rparr>))"





text \<open>
  A pending command that can be completed without waiting: its \<open>done\<close> channel is as
  \<open>beginCommand\<close> made it, its stream is open, and the stream of a \<open>ListCommand\<close> that
  holds pending data has room for it.
\<close>

definition completable :: "Client \<Rightarrow> cmdref \<Rightarrow> bool" where
  "completable c p =
     (case objs c p of
        None \<Rightarrow> False
      | Some cmd \<Rightarrow>
          done_ch cmd = make_chan 1 \<and> \<not> is_closed (stream cmd) \<and>
          (pendingData cmd = None \<or> length (items (stream cmd)) < cap (stream cmd)))"





section \<open>Concrete inputs\<close>

text \<open>The world that a sequence of operations leaves of a new mailbox of \<open>n\<close> messages.\<close>

definition scenario :: "u32 \<Rightarrow> tracker_op list \<Rightarrow> world" where
  "scenario n ops =
     (case run_ops (NewMailboxTracker n) ops of Inl p \<Rightarrow> NewMailboxTracker 0 | Inr w \<Rightarrow> w)"

text \<open>Two callers of \<open>Idle\<close> on the one session of a mailbox of 42 messages.\<close>

definition idle_demo :: "action list \<Rightarrow> idle_sys" where
  "idle_demo acts =
     sys_run 0 \<lparr>allowExpunge = True\<rparr>
       (sys_init (scenario 42 [OpNewSession]) (\<lambda>_. \<lparr>sent = [], fails_after = None\<rparr>)) acts"

text \<open>One session with a grow, an expunge and a flags update pending, in this order.\<close>

definition poll_demo :: world where
  "poll_demo = scenario 42 [OpNewSession, OpQueueNumMessages 43, OpQueueExpunge 3,
      OpQueueMailboxFlags (Some [''Seen''])]"


section \<open>Properties\<close>

subsection \<open>Unfolding the operations\<close>

lemmas tracker_defs = NewMailboxTracker_def NewSession_def QueueExpunge_def QueueNumMessages_def
  QueueMailboxFlags_def QueueMessageFlags_def MailboxTracker_queueUpdate_def
  SessionTracker_queueUpdate_def Close_def Let_def

lemmas poll_defs = Poll_def Poll_dequeue_def write_update_def of_error_def WriteExpunge_def
  WriteNumMessages_def WriteMailboxFlags_def WriteMessageFlags_def conn_write_def


lemmas idle_defs = idle_demo_def sys_run_def sys_init_def sys_step_def Idle_enter_def
  Idle_select_def Idle_deferred_def scenario_def

subsection \<open>The loops and the specification's replays\<close>

lemma foldl_replay_None: "foldl replay_step None q = None"
  by (induction q) simp_all

lemma decode_range_replay: "decode_range q n = foldl replay_step (Some n) q"
  by (induction q arbitrary: n) (auto simp: foldl_replay_None)

lemma foldl_encode_None: "foldl encode_step None q = None"
  by (induction q) simp_all

lemma encode_loop_take:
  "k \<le> length q \<Longrightarrow>
   encode_loop q k n = (case foldl encode_step (Some n) (rev (take k q)) of None \<Rightarrow> 0 | Some m \<Rightarrow> m)"
proof (induction k arbitrary: n)
  case 0
  then show ?case by simp
next
  case (Suc k)
  then have k: "k < length q" "k \<le> length q" by simp_all
  have t: "rev (take (Suc k) q) = q ! k # rev (take k q)"
    using k by (simp add: take_Suc_conv_app_nth)
  show ?case
    using Suc.IH [OF k(2)] by (simp add: t Let_def foldl_encode_None)
qed

lemma encode_loop_spec: "encode_loop q (length q) n = encode_spec q n"
  by (simp add: encode_loop_take encode_spec_def)

lemma encode_loop_zero: "encode_loop q k 0 = 0"
  by (induction k) (simp_all add: Let_def)

lemma decode_range_append:
  "decode_range (xs @ ys) n =
     (case decode_range xs n of None \<Rightarrow> None | Some m \<Rightarrow> decode_range ys m)"
  by (induction xs arbitrary: n) simp_all

lemma word_succ_above:
  fixes n e :: u32
  assumes "n + 1 \<noteq> 0" and "e \<le> n"
  shows "e < n + 1" and "n + 1 \<noteq> e"
proof -
  have "unat (n + 1) = Suc (unat n)"
    using assms(1) unatSuc [of n] by (simp add: add.commute)
  then show "e < n + 1"
    using assms(2) by (simp add: word_less_nat_alt word_le_nat_alt)
  then show "n + 1 \<noteq> e" by simp
qed

text \<open>Decoding undoes the encoding loop, record by record.\<close>

lemma encode_decode_take:
  "k \<le> length q \<Longrightarrow> encode_loop q k n = m \<Longrightarrow> m \<noteq> 0 \<Longrightarrow>
   decode_range (take k q) m = Some n"
proof (induction k arbitrary: n)
  case 0
  then show ?case by simp
next
  case (Suc k)
  then have k: "k < length q" "k \<le> length q" by simp_all
  let ?u = "q ! k"
  have t: "take (Suc k) q = take k q @ [?u]"
    using k by (simp add: take_Suc_conv_app_nth)
  have grow: "\<not> (numMessages ?u \<noteq> 0 \<and> n = numMessages ?u)"
    using Suc.prems by (auto simp: Let_def)
  show ?case
  proof (cases "expunge ?u \<noteq> 0 \<and> n \<ge> expunge ?u")
    case True
    with grow Suc.prems have e: "encode_loop q k (n + 1) = m"
      by (auto simp: Let_def split: if_splits)
    have nz: "n + 1 \<noteq> 0"
      using e Suc.prems(3) encode_loop_zero by metis
    have d: "decode_range (take k q) m = Some (n + 1)"
      using Suc.IH [OF k(2) e Suc.prems(3)] .
    from word_succ_above [OF nz] True
    have "expunge ?u < n + 1" "n + 1 \<noteq> expunge ?u" by simp_all
    then show ?thesis
      using True by (simp add: t decode_range_append d)
  next
    case False
    with grow Suc.prems have e: "encode_loop q k n = m"
      by (auto simp: Let_def split: if_splits)
    have d: "decode_range (take k q) m = Some n"
      using Suc.IH [OF k(2) e Suc.prems(3)] .
    show ?thesis
      using False by (auto simp: t decode_range_append d)
  qed
qed

lemma roundtrip_any_world:
  assumes "EncodeSeqNum w st n = Inr c" and "c \<noteq> 0"
  shows "DecodeSeqNum w st c = Inr n"
proof -
  from assms obtain t where t: "heap w st = Some t" "mailbox t" "n \<le> count (tracker w)"
       "c = encode_loop (queue t) (length (queue t)) n"
    by (auto simp: EncodeSeqNum_def split: if_splits option.splits)
  have "decode_range (queue t) c = Some n"
    using encode_decode_take [of "length (queue t)" "queue t" n c] t(4) assms(2) by simp
  then show ?thesis
    using t assms(2) by (auto simp: DecodeSeqNum_def)
qed

subsection \<open>What the operations change\<close>

lemma queueUpdate_effect:
  assumes "MailboxTracker_queueUpdate w u src = Inr w'"
  shows "heap w' st = (if st \<in> sessions (tracker w) \<and> src \<noteq> Some st
                       then map_option (SessionTracker_queueUpdate u) (heap w st) else heap w st)"
    and "sessions (tracker w') = sessions (tracker w)"
    and "next_ptr w' = next_ptr w"
    and "count (tracker w') = (if expunge u \<noteq> 0 then count (tracker w) - 1
                               else if numMessages u \<noteq> 0 then numMessages u else count (tracker w))"
  using assms by (auto simp: MailboxTracker_queueUpdate_def Let_def split: if_splits)

lemma queueUpdate_queue_of:
  assumes "MailboxTracker_queueUpdate w u src = Inr w'"
  shows "queue_of w' st = (if st \<in> sessions (tracker w) \<and> src \<noteq> Some st \<and> heap w st \<noteq> None
                           then queue_of w st @ [u] else queue_of w st)"
  using queueUpdate_effect(1) [OF assms, of st]
  by (auto simp: queue_of_def SessionTracker_queueUpdate_def split: option.splits)

lemma poll_scan_eq:
  "poll_scan q i acc =
     (if \<exists>u\<in>set q. expunge u \<noteq> 0
      then int (i + length (takeWhile (\<lambda>u. expunge u = 0) q)) else - 1,
      acc @ takeWhile (\<lambda>u. expunge u = 0) q)"
  by (induction q arbitrary: i acc) auto

lemma Poll_dequeue_False:
  "Poll_dequeue t False =
     (takeWhile (\<lambda>u. expunge u = 0) (queue t),
      t\<lparr>queue := dropWhile (\<lambda>u. expunge u = 0) (queue t)\<rparr>)"
proof (cases "\<exists>u\<in>set (queue t). expunge u \<noteq> 0")
  case True
  then show ?thesis
    by (simp add: Poll_dequeue_def poll_scan_eq dropWhile_eq_drop)
next
  case False
  then have d: "dropWhile (\<lambda>u. expunge u = 0) (queue t) = []" by simp
  show ?thesis
    unfolding d using False by (simp add: Poll_dequeue_def poll_scan_eq)
qed

lemma Poll_dequeue_True: "Poll_dequeue t True = (queue t, t\<lparr>queue := []\<rparr>)"
  by (simp add: Poll_dequeue_def)

lemma write_update_NoError:
  "write_update uw c u = (c', NoError) \<Longrightarrow>
   map Some (sent c') = map Some (sent c) @ [delivery u]"
  by (auto simp: write_update_def delivery_def of_error_def WriteExpunge_def WriteNumMessages_def
      WriteMailboxFlags_def WriteMessageFlags_def conn_write_def
      split: if_splits option.splits nat.splits)

lemma write_updates_NoError:
  "write_updates uw c ups = (c', NoError) \<Longrightarrow>
   map Some (sent c') = map Some (sent c) @ map delivery ups"
proof (induction ups arbitrary: c)
  case Nil
  then show ?case by simp
next
  case (Cons u ups)
  obtain c1 r1 where w1: "write_update uw c u = (c1, r1)" by (cases "write_update uw c u")
  with Cons.prems have r1: "r1 = NoError" by (cases r1) auto
  with Cons.prems w1 have "write_updates uw c1 ups = (c', NoError)" by simp
  from Cons.IH [OF this] write_update_NoError [OF w1 [unfolded r1]]
  show ?case by simp
qed

lemma write_update_accepts:
  "fails_after c = None \<Longrightarrow> delivery u \<noteq> None \<Longrightarrow> allowExpunge uw \<or> expunge u = 0 \<Longrightarrow>
   snd (write_update uw c u) = NoError \<and> fails_after (fst (write_update uw c u)) = None"
  by (auto simp: write_update_def delivery_def of_error_def WriteExpunge_def WriteNumMessages_def
      WriteMailboxFlags_def WriteMessageFlags_def conn_write_def
      split: if_splits option.splits)

lemma write_updates_accepts:
  "fails_after c = None \<Longrightarrow> \<forall>u\<in>set ups. delivery u \<noteq> None \<and> (allowExpunge uw \<or> expunge u = 0) \<Longrightarrow>
   snd (write_updates uw c ups) = NoError"
proof (induction ups arbitrary: c)
  case Nil
  then show ?case by simp
next
  case (Cons u ups)
  obtain c1 r1 where w1: "write_update uw c u = (c1, r1)" by (cases "write_update uw c u")
  from write_update_accepts [of c u uw] Cons.prems w1
  have "r1 = NoError" "fails_after c1 = None" by auto
  with Cons w1 show ?case by simp
qed

lemma Poll_result:
  assumes "heap w st = Some t"
  shows "Poll w st uw c allow =
     (w\<lparr>heap := (heap w)(st := Some (snd (Poll_dequeue t allow)))\<rparr>,
      write_updates uw c (fst (Poll_dequeue t allow)))"
  using assms by (simp add: Poll_def split_beta)

lemma Poll_effect:
  assumes "Poll w st' uw c allow = (w', c', r)"
  shows "next_ptr w' = next_ptr w"
    and "(heap w' st \<noteq> None) = (heap w st \<noteq> None)"
    and "updates_of w' st = updates_of w st"
  using assms
  by (auto simp: Poll_def Poll_dequeue_def updates_of_def split_beta split: option.splits if_splits)


subsection \<open>C1: decode replays the pending expunges\<close>

text \<open>
  C1. For a session that is attached to its mailbox and a client-view number \<open>n > 0\<close>,
  \<open>DecodeSeqNum\<close> replays the pending queue oldest first over the pending expunge
  records: a target equal to the number gives 0, a target below it decrements it by one;
  after the replay a result above the canonical count gives 0, any other is returned.
  For a mailbox of 42 messages with one pending expunge of position 20, 20 decodes to 0,
  10 to 10 and 30 to 29.
\<close>

theorem DecodeSeqNum_replays_pending_expunges:
  assumes "heap w st = Some t" and "mailbox t" and "n \<noteq> 0"
  shows "DecodeSeqNum w st n = Inr (decode_spec (count (tracker w)) (queue t) n) \<and>
    (case run_ops (NewMailboxTracker 42) [OpNewSession, OpQueueExpunge 20] of
       Inl p \<Rightarrow> False
     | Inr w2 \<Rightarrow> DecodeSeqNum w2 0 20 = Inr 0 \<and> DecodeSeqNum w2 0 10 = Inr 10 \<and>
                 DecodeSeqNum w2 0 30 = Inr 29)"
proof
  show "DecodeSeqNum w st n = Inr (decode_spec (count (tracker w)) (queue t) n)"
    using assms by (simp add: DecodeSeqNum_def decode_spec_def decode_range_replay split: option.splits)
  show "case run_ops (NewMailboxTracker 42) [OpNewSession, OpQueueExpunge 20] of
       Inl p \<Rightarrow> False
     | Inr w2 \<Rightarrow> DecodeSeqNum w2 0 20 = Inr 0 \<and> DecodeSeqNum w2 0 10 = Inr 10 \<and>
                 DecodeSeqNum w2 0 30 = Inr 29"
    by (simp add: tracker_defs DecodeSeqNum_def)
qed

lemma scenario1_heap: "heap (scenario 42 [OpNewSession, OpQueueExpunge 20]) 0 =
   Some \<lparr>mailbox = True, queue = [\<lparr>expunge = 20, numMessages = 0, mailboxFlags = None, fetch = None\<rparr>], updates = None\<rparr>"
  by (simp add: scenario_def tracker_defs)

lemma scenario1_count: "count (tracker (scenario 42 [OpNewSession, OpQueueExpunge 20])) = 41"
  by (simp add: scenario_def tracker_defs)

text \<open>The theorem at the mailbox of the scenario, for the number 30.\<close>

theorem DecodeSeqNum_replays_pending_expunges_witness:
  "heap (scenario 42 [OpNewSession, OpQueueExpunge 20]) 0 =
     Some \<lparr>mailbox = True,
            queue = [\<lparr>expunge = 20, numMessages = 0, mailboxFlags = None, fetch = None\<rparr>],
            updates = None\<rparr> \<and>
   (30 :: u32) \<noteq> 0 \<and>
   DecodeSeqNum (scenario 42 [OpNewSession, OpQueueExpunge 20]) 0 30 = Inr 29"
  using DecodeSeqNum_replays_pending_expunges [OF scenario1_heap, of 30]
  by (simp add: scenario1_heap scenario1_count decode_spec_def)

subsection \<open>C2: encode walks the queue newest first\<close>

text \<open>
  As C2 is stated, for every \<open>n > 0\<close>, the walk alone decides the result. The source
  first compares \<open>n\<close> with the canonical count: with 41 messages left and the expunge of
  position 10 pending, 42 encodes to 0, where the walk gives 43; with 42 messages and
  nothing pending, 43 encodes to 0, where the walk gives 43.
\<close>

theorem EncodeSeqNum_above_count_counterexample:
  "EncodeSeqNum (scenario 42 [OpNewSession, OpQueueExpunge 10]) 0 42 = Inr 0 \<and>
   encode_spec (queue_of (scenario 42 [OpNewSession, OpQueueExpunge 10]) 0) 42 = 43 \<and>
   EncodeSeqNum (scenario 42 [OpNewSession]) 0 43 = Inr 0 \<and>
   encode_spec (queue_of (scenario 42 [OpNewSession]) 0) 43 = 43"
  by (simp add: scenario_def tracker_defs EncodeSeqNum_def encode_spec_def queue_of_def)

text \<open>
  C2, amended. For an attached session and a server-view number \<open>n\<close> with
  \<open>0 < n \<le> count\<close>, \<open>EncodeSeqNum\<close> walks the pending queue newest first: a pending grow
  record whose new count equals the number being encoded makes the result 0, a pending
  expunge record whose target is at or below the number increments it by one. A number
  above the canonical count encodes to 0. When the count grows from 42 to 43 and the
  session has not polled, 43 encodes to 0; after its poll, which delivers the grow
  record, 43 encodes to 43.
\<close>

theorem EncodeSeqNum_walks_newest_first:
  assumes "heap w st = Some t" and "mailbox t" and "n \<noteq> 0"
  shows "EncodeSeqNum w st n =
           Inr (if n > count (tracker w) then 0 else encode_spec (queue t) n) \<and>
    (case run_ops (NewMailboxTracker 42) [OpNewSession, OpQueueNumMessages 43] of
       Inl p \<Rightarrow> False
     | Inr w1 \<Rightarrow>
         EncodeSeqNum w1 0 43 = Inr 0 \<and>
         (case Poll w1 0 \<lparr>allowExpunge = True\<rparr> \<lparr>sent = [], fails_after = None\<rparr> True of
            (w2, c, r) \<Rightarrow> r = NoError \<and> sent c = [ExistsResp 43] \<and>
                          EncodeSeqNum w2 0 43 = Inr 43))"
proof
  show "EncodeSeqNum w st n = Inr (if n > count (tracker w) then 0 else encode_spec (queue t) n)"
    using assms by (simp add: EncodeSeqNum_def encode_loop_spec)
  show "case run_ops (NewMailboxTracker 42) [OpNewSession, OpQueueNumMessages 43] of
       Inl p \<Rightarrow> False
     | Inr w1 \<Rightarrow>
         EncodeSeqNum w1 0 43 = Inr 0 \<and>
         (case Poll w1 0 \<lparr>allowExpunge = True\<rparr> \<lparr>sent = [], fails_after = None\<rparr> True of
            (w2, c, r) \<Rightarrow> r = NoError \<and> sent c = [ExistsResp 43] \<and>
                          EncodeSeqNum w2 0 43 = Inr 43)"
    by (simp add: tracker_defs EncodeSeqNum_def poll_defs)
qed

lemma scenario2_heap: "heap (scenario 42 [OpNewSession, OpQueueExpunge 10]) 0 =
   Some \<lparr>mailbox = True, queue = [\<lparr>expunge = 10, numMessages = 0, mailboxFlags = None, fetch = None\<rparr>], updates = None\<rparr>"
  by (simp add: scenario_def tracker_defs)

lemma scenario2_count: "count (tracker (scenario 42 [OpNewSession, OpQueueExpunge 10])) = 41"
  by (simp add: scenario_def tracker_defs)

text \<open>The theorem at a mailbox with the expunge of position 10 pending, for the number 19.\<close>

theorem EncodeSeqNum_walks_newest_first_witness:
  "heap (scenario 42 [OpNewSession, OpQueueExpunge 10]) 0 =
     Some \<lparr>mailbox = True,
            queue = [\<lparr>expunge = 10, numMessages = 0, mailboxFlags = None, fetch = None\<rparr>],
            updates = None\<rparr> \<and>
   (19 :: u32) \<noteq> 0 \<and>
   EncodeSeqNum (scenario 42 [OpNewSession, OpQueueExpunge 10]) 0 19 = Inr 20"
  using EncodeSeqNum_walks_newest_first [OF scenario2_heap, of 19]
  by (simp add: scenario2_heap scenario2_count encode_spec_def)

subsection \<open>C3: the round trip\<close>

lemma marks_expunged_decode:
  assumes "marks_expunged q c"
  shows "decode_range q c = None"
proof -
  from assms obtain i where i: "i < length q" "expunge (q ! i) \<noteq> 0"
      "foldl replay_step (Some c) (take i q) = Some (expunge (q ! i))"
    by (auto simp: marks_expunged_def list_ex_iff)
  have q: "q = take i q @ q ! i # drop (Suc i) q"
    using i(1) by (simp add: id_take_nth_drop)
  have "decode_range (take i q @ q ! i # drop (Suc i) q) c = None"
    using i(2,3) by (simp add: decode_range_append decode_range_replay foldl_replay_None)
  with q show ?thesis by simp
qed

lemma decode_after_expunge:
  assumes att: "attached w st" and d: "DecodeSeqNum w st c = Inr k" and k: "k \<noteq> 0"
    and e: "QueueExpunge w k = Inr w'"
  shows "DecodeSeqNum w' st c = Inr 0"
proof -
  from att obtain t where t: "heap w st = Some t" "mailbox t" "st \<in> sessions (tracker w)"
    by (auto simp: attached_def split: option.splits)
  have c: "c \<noteq> 0" using d k by (auto simp: DecodeSeqNum_def)
  have r: "decode_range (queue t) c = Some k"
    using d k c t by (auto simp: DecodeSeqNum_def split: option.splits if_splits)
  let ?u = "\<lparr>expunge = k, numMessages = 0, mailboxFlags = None, fetch = None\<rparr>"
  from e k have q: "MailboxTracker_queueUpdate w ?u None = Inr w'"
    by (simp add: QueueExpunge_def)
  have "heap w' st = Some (SessionTracker_queueUpdate ?u t)"
    using queueUpdate_effect(1) [OF q, of st] t by simp
  then show ?thesis
    using c r k by (simp add: DecodeSeqNum_def SessionTracker_queueUpdate_def decode_range_append)
qed

text \<open>
  C3. After every sequence of attach, detach, notify (and poll) operations on a mailbox
  tracker, for every attached session: a server-view number \<open>n\<close> that the session still
  sees (\<open>EncodeSeqNum\<close> gives a client-view number \<open>c \<noteq> 0\<close>) decodes back,
  \<open>DecodeSeqNum c = n\<close>; and \<open>DecodeSeqNum\<close> gives 0 for every client-view number that the
  pending queue marks as expunged, in particular for the client-view number of a
  message once its expunge has been queued.
\<close>

theorem decode_encode_roundtrip:
  assumes "run_ops (NewMailboxTracker n0) ops = Inr w" and "attached w st"
  shows "(EncodeSeqNum w st n = Inr c \<and> c \<noteq> 0 \<longrightarrow> DecodeSeqNum w st c = Inr n) \<and>
         (marks_expunged (queue_of w st) c' \<longrightarrow> DecodeSeqNum w st c' = Inr 0) \<and>
         (DecodeSeqNum w st c' = Inr k \<and> k \<noteq> 0 \<and> QueueExpunge w k = Inr w' \<longrightarrow>
            DecodeSeqNum w' st c' = Inr 0)"
proof (intro conjI impI)
  assume "EncodeSeqNum w st n = Inr c \<and> c \<noteq> 0"
  then show "DecodeSeqNum w st c = Inr n" by (simp add: roundtrip_any_world)
next
  assume m: "marks_expunged (queue_of w st) c'"
  from assms(2) obtain t where t: "heap w st = Some t"
    by (auto simp: attached_def split: option.splits)
  with m have "decode_range (queue t) c' = None"
    by (simp add: queue_of_def marks_expunged_decode)
  then show "DecodeSeqNum w st c' = Inr 0" using t by (simp add: DecodeSeqNum_def)
next
  assume "DecodeSeqNum w st c' = Inr k \<and> k \<noteq> 0 \<and> QueueExpunge w k = Inr w'"
  then show "DecodeSeqNum w' st c' = Inr 0"
    using decode_after_expunge [OF assms(2)] by blast
qed

lemma scenario3_run:
  "run_ops (NewMailboxTracker 42) [OpNewSession, OpQueueExpunge 3, OpQueueExpunge 1] =
     Inr (scenario 42 [OpNewSession, OpQueueExpunge 3, OpQueueExpunge 1])"
  by (simp add: scenario_def tracker_defs)

lemma scenario3_heap: "heap (scenario 42 [OpNewSession, OpQueueExpunge 3, OpQueueExpunge 1]) 0 =
   Some \<lparr>mailbox = True, queue = [\<lparr>expunge = 3, numMessages = 0, mailboxFlags = None, fetch = None\<rparr>,
        \<lparr>expunge = 1, numMessages = 0, mailboxFlags = None, fetch = None\<rparr>], updates = None\<rparr>"
  by (simp add: scenario_def tracker_defs)

lemma scenario3_tracker: "tracker (scenario 42 [OpNewSession, OpQueueExpunge 3, OpQueueExpunge 1]) =
   \<lparr>count = 40, sessions = {0}\<rparr>"
  by (simp add: scenario_def tracker_defs)

lemma scenario3_attached: "attached (scenario 42 [OpNewSession, OpQueueExpunge 3, OpQueueExpunge 1]) 0"
  by (simp add: attached_def scenario3_heap scenario3_tracker)

lemma scenario3_marks:
  "marks_expunged (queue_of (scenario 42 [OpNewSession, OpQueueExpunge 3, OpQueueExpunge 1]) 0) 1"
  by (simp add: marks_expunged_def queue_of_def scenario3_heap upt_rec)

lemma scenario3_encode:
  "EncodeSeqNum (scenario 42 [OpNewSession, OpQueueExpunge 3, OpQueueExpunge 1]) 0 2 = Inr 4"
  by (simp add: EncodeSeqNum_def scenario3_heap scenario3_tracker encode_loop_spec encode_spec_def)

lemma scenario3_expunge:
  "QueueExpunge (scenario 42 [OpNewSession, OpQueueExpunge 3, OpQueueExpunge 1]) 2 =
     Inr (scenario 42 [OpNewSession, OpQueueExpunge 3, OpQueueExpunge 1, OpQueueExpunge 2])"
  by (simp add: scenario_def tracker_defs)

text \<open>
  The theorem after the expunges of positions 3 and 1 of a mailbox of 42 messages:
  server-view 2 is client-view 4, client-view 1 is marked as expunged, and client-view 4
  decodes to 0 once the expunge of server-view 2 is queued.
\<close>

theorem decode_encode_roundtrip_witness:
  "attached (scenario 42 [OpNewSession, OpQueueExpunge 3, OpQueueExpunge 1]) 0 \<and>
   EncodeSeqNum (scenario 42 [OpNewSession, OpQueueExpunge 3, OpQueueExpunge 1]) 0 2 = Inr 4 \<and>
   DecodeSeqNum (scenario 42 [OpNewSession, OpQueueExpunge 3, OpQueueExpunge 1]) 0 4 = Inr 2 \<and>
   marks_expunged (queue_of (scenario 42 [OpNewSession, OpQueueExpunge 3, OpQueueExpunge 1]) 0) 1 \<and>
   DecodeSeqNum (scenario 42 [OpNewSession, OpQueueExpunge 3, OpQueueExpunge 1]) 0 1 = Inr 0 \<and>
   DecodeSeqNum (scenario 42 [OpNewSession, OpQueueExpunge 3, OpQueueExpunge 1, OpQueueExpunge 2])
     0 4 = Inr 0"
proof -
  note a = decode_encode_roundtrip [OF scenario3_run scenario3_attached, of 2 4 1]
  have rt: "DecodeSeqNum (scenario 42 [OpNewSession, OpQueueExpunge 3, OpQueueExpunge 1]) 0 4 =
      Inr 2"
    using a [THEN conjunct1] by (simp add: scenario3_encode)
  have mk: "DecodeSeqNum (scenario 42 [OpNewSession, OpQueueExpunge 3, OpQueueExpunge 1]) 0 1 =
      Inr 0"
    using a [THEN conjunct2, THEN conjunct1] by (simp add: scenario3_marks)
  have ex: "DecodeSeqNum
      (scenario 42 [OpNewSession, OpQueueExpunge 3, OpQueueExpunge 1, OpQueueExpunge 2]) 0 4 =
      Inr 0"
    using decode_encode_roundtrip [OF scenario3_run scenario3_attached, of 2 4 4 2
        "scenario 42 [OpNewSession, OpQueueExpunge 3, OpQueueExpunge 1, OpQueueExpunge 2]",
        THEN conjunct2, THEN conjunct2]
    by (simp add: rt scenario3_expunge)
  show ?thesis
    by (simp add: rt mk ex scenario3_attached scenario3_encode scenario3_marks)
qed

subsection \<open>C4: who receives a notification\<close>

text \<open>
  As C4 is stated, an expunge performed by one session never appears in that session's
  own queue. \<open>QueueExpunge\<close> takes no source: with two sessions attached, the expunge
  of position 20 is in the queue of both, so whichever of them performed it finds it in
  its own queue.
\<close>

theorem QueueExpunge_reaches_every_session_counterexample:
  "case run_ops (NewMailboxTracker 42) [OpNewSession, OpNewSession, OpQueueExpunge 20] of
     Inl p \<Rightarrow> False
   | Inr w \<Rightarrow>
       attached w 0 \<and> attached w 1 \<and>
       queue_of w 0 = [\<lparr>expunge = 20, numMessages = 0, mailboxFlags = None, fetch = None\<rparr>] \<and>
       queue_of w 1 = [\<lparr>expunge = 20, numMessages = 0, mailboxFlags = None, fetch = None\<rparr>]"
  by (simp add: tracker_defs attached_def queue_of_def)

text \<open>
  C4, amended. For two distinct sessions \<open>o1\<close> and \<open>o2\<close> attached to the mailbox tracker:
  a message-flag update queued with source \<open>o1\<close> leaves the queue of \<open>o1\<close> as it is and
  is appended exactly once to the queue of \<open>o2\<close>; an expunge and a grow update carry no
  source and are appended exactly once to the queue of every attached session, \<open>o1\<close>
  and \<open>o2\<close> alike.
\<close>

theorem queueUpdate_skips_source_only:
  assumes "attached w o1" and "attached w o2" and "o1 \<noteq> o2"
  shows "(QueueMessageFlags w n u fl (Some o1) = Inr w' \<longrightarrow>
            queue_of w' o1 = queue_of w o1 \<and>
            queue_of w' o2 = queue_of w o2 @
              [\<lparr>expunge = 0, numMessages = 0, mailboxFlags = None,
                fetch = Some \<lparr>seqNum = n, uid = u, flags = fl\<rparr>\<rparr>]) \<and>
         (QueueExpunge w n = Inr w' \<longrightarrow>
            queue_of w' o1 = queue_of w o1 @
              [\<lparr>expunge = n, numMessages = 0, mailboxFlags = None, fetch = None\<rparr>] \<and>
            queue_of w' o2 = queue_of w o2 @
              [\<lparr>expunge = n, numMessages = 0, mailboxFlags = None, fetch = None\<rparr>]) \<and>
         (QueueNumMessages w n = Inr w' \<longrightarrow>
            queue_of w' o1 = queue_of w o1 @
              [\<lparr>expunge = 0, numMessages = n, mailboxFlags = None, fetch = None\<rparr>] \<and>
            queue_of w' o2 = queue_of w o2 @
              [\<lparr>expunge = 0, numMessages = n, mailboxFlags = None, fetch = None\<rparr>])"
proof -
  from assms obtain "heap w o1 \<noteq> None" "o1 \<in> sessions (tracker w)"
     "heap w o2 \<noteq> None" "o2 \<in> sessions (tracker w)"
    by (auto simp: attached_def split: option.splits)
  then show ?thesis
    using assms(3)
    by (auto simp: QueueMessageFlags_def QueueExpunge_def QueueNumMessages_def
        queueUpdate_queue_of split: if_splits)
qed

lemma two_sessions:
  "attached (scenario 42 [OpNewSession, OpNewSession]) 0"
  "attached (scenario 42 [OpNewSession, OpNewSession]) (Suc 0)"
  "queue_of (scenario 42 [OpNewSession, OpNewSession]) 0 = []"
  "queue_of (scenario 42 [OpNewSession, OpNewSession]) (Suc 0) = []"
  by (simp_all add: scenario_def tracker_defs attached_def queue_of_def)

lemma two_sessions_ops:
  "QueueMessageFlags (scenario 42 [OpNewSession, OpNewSession]) 7 9 [''Seen''] (Some 0) =
     Inr (scenario 42 [OpNewSession, OpNewSession, OpQueueMessageFlags 7 9 [''Seen''] (Some 0)])"
  "QueueExpunge (scenario 42 [OpNewSession, OpNewSession]) 20 =
     Inr (scenario 42 [OpNewSession, OpNewSession, OpQueueExpunge 20])"
  "QueueNumMessages (scenario 42 [OpNewSession, OpNewSession]) 43 =
     Inr (scenario 42 [OpNewSession, OpNewSession, OpQueueNumMessages 43])"
  by (simp_all add: scenario_def tracker_defs)

text \<open>The theorem at two sessions, the first being the source of a flag change.\<close>

theorem queueUpdate_skips_source_only_witness:
  "attached (scenario 42 [OpNewSession, OpNewSession]) 0 \<and>
   attached (scenario 42 [OpNewSession, OpNewSession]) (Suc 0) \<and>
   queue_of (scenario 42 [OpNewSession, OpNewSession, OpQueueMessageFlags 7 9 [''Seen''] (Some 0)])
     0 = [] \<and>
   queue_of (scenario 42 [OpNewSession, OpNewSession, OpQueueMessageFlags 7 9 [''Seen''] (Some 0)])
     (Suc 0) =
     [\<lparr>expunge = 0, numMessages = 0, mailboxFlags = None,
       fetch = Some \<lparr>seqNum = 7, uid = 9, flags = [''Seen'']\<rparr>\<rparr>] \<and>
   queue_of (scenario 42 [OpNewSession, OpNewSession, OpQueueExpunge 20]) 0 =
     [\<lparr>expunge = 20, numMessages = 0, mailboxFlags = None, fetch = None\<rparr>] \<and>
   queue_of (scenario 42 [OpNewSession, OpNewSession, OpQueueNumMessages 43]) 0 =
     [\<lparr>expunge = 0, numMessages = 43, mailboxFlags = None, fetch = None\<rparr>]"
proof -
  note f = queueUpdate_skips_source_only [OF two_sessions(1,2), of 7 9 "[''Seen'']"
      "scenario 42 [OpNewSession, OpNewSession, OpQueueMessageFlags 7 9 [''Seen''] (Some 0)]",
      THEN conjunct1]
  note e = queueUpdate_skips_source_only [OF two_sessions(1,2), of 20 9 "[''Seen'']"
      "scenario 42 [OpNewSession, OpNewSession, OpQueueExpunge 20]",
      THEN conjunct2, THEN conjunct1]
  note g = queueUpdate_skips_source_only [OF two_sessions(1,2), of 43 9 "[''Seen'']"
      "scenario 42 [OpNewSession, OpNewSession, OpQueueNumMessages 43]",
      THEN conjunct2, THEN conjunct2]
  show ?thesis
    using f e g by (simp add: two_sessions two_sessions_ops)
qed

subsection \<open>C5: partial drain\<close>

text \<open>
  C5. For every session and every pending queue: \<open>Poll\<close> with \<open>allowExpunge = false\<close>
  takes off the queue exactly the records before the first pending expunge record, which
  stays queued with all that follows it; \<open>Poll\<close> with \<open>allowExpunge = true\<close> takes the
  whole queue and leaves it empty. When \<open>Poll\<close> returns nil the records taken have all
  been written, each as its response, in order; it does return nil when the connection
  accepts every write, every record has a kind and, for the whole queue, the writer
  allows expunges.
\<close>

theorem Poll_partial_drain:
  assumes "heap w st = Some t"
  shows "(Poll w st uw c False = (w', c', r) \<longrightarrow>
            queue_of w' st = dropWhile (\<lambda>u. expunge u = 0) (queue t) \<and>
            (r = NoError \<longrightarrow>
               map Some (sent c') =
               map Some (sent c) @ map delivery (takeWhile (\<lambda>u. expunge u = 0) (queue t)))) \<and>
         (Poll w st uw c True = (w', c', r) \<longrightarrow>
            queue_of w' st = [] \<and>
            (r = NoError \<longrightarrow> map Some (sent c') = map Some (sent c) @ map delivery (queue t))) \<and>
         (fails_after c = None \<and> (\<forall>u\<in>set (queue t). delivery u \<noteq> None) \<longrightarrow>
            snd (snd (Poll w st uw c False)) = NoError) \<and>
         (fails_after c = None \<and> (\<forall>u\<in>set (queue t). delivery u \<noteq> None) \<and> allowExpunge uw \<longrightarrow>
            snd (snd (Poll w st uw c True)) = NoError)"
proof (intro conjI impI)
  assume p: "Poll w st uw c False = (w', c', r)"
  then show "queue_of w' st = dropWhile (\<lambda>u. expunge u = 0) (queue t)"
    using assms by (auto simp: Poll_result Poll_dequeue_False queue_of_def)
  assume "r = NoError"
  with p assms show "map Some (sent c') =
     map Some (sent c) @ map delivery (takeWhile (\<lambda>u. expunge u = 0) (queue t))"
    by (auto simp: Poll_result Poll_dequeue_False dest: write_updates_NoError)
next
  assume p: "Poll w st uw c True = (w', c', r)"
  then show "queue_of w' st = []"
    using assms by (auto simp: Poll_result Poll_dequeue_True queue_of_def)
  assume "r = NoError"
  with p assms show "map Some (sent c') = map Some (sent c) @ map delivery (queue t)"
    by (auto simp: Poll_result Poll_dequeue_True dest: write_updates_NoError)
next
  assume a: "fails_after c = None \<and> (\<forall>u\<in>set (queue t). delivery u \<noteq> None)"
  have "\<forall>u\<in>set (takeWhile (\<lambda>u. expunge u = 0) (queue t)).
          delivery u \<noteq> None \<and> (allowExpunge uw \<or> expunge u = 0)"
    using a by (auto dest: set_takeWhileD)
  with a show "snd (snd (Poll w st uw c False)) = NoError"
    using assms by (simp add: Poll_result Poll_dequeue_False write_updates_accepts)
next
  assume a: "fails_after c = None \<and> (\<forall>u\<in>set (queue t). delivery u \<noteq> None) \<and> allowExpunge uw"
  then show "snd (snd (Poll w st uw c True)) = NoError"
    using assms by (simp add: Poll_result Poll_dequeue_True write_updates_accepts)
qed

lemma poll_demo_heap:
  "heap poll_demo 0 = Some \<lparr>mailbox = True,
     queue = [\<lparr>expunge = 0, numMessages = 43, mailboxFlags = None, fetch = None\<rparr>,
              \<lparr>expunge = 3, numMessages = 0, mailboxFlags = None, fetch = None\<rparr>,
              \<lparr>expunge = 0, numMessages = 0, mailboxFlags = Some [''Seen''], fetch = None\<rparr>],
     updates = None\<rparr>"
  by (simp add: poll_demo_def scenario_def tracker_defs)

text \<open>The theorem at a queue holding a grow, an expunge and a flags update.\<close>

theorem Poll_partial_drain_witness:
  "queue_of (fst (Poll poll_demo 0 \<lparr>allowExpunge = False\<rparr> \<lparr>sent = [], fails_after = None\<rparr> False)) 0 =
     [\<lparr>expunge = 3, numMessages = 0, mailboxFlags = None, fetch = None\<rparr>,
      \<lparr>expunge = 0, numMessages = 0, mailboxFlags = Some [''Seen''], fetch = None\<rparr>] \<and>
   sent (fst (snd (Poll poll_demo 0 \<lparr>allowExpunge = False\<rparr> \<lparr>sent = [], fails_after = None\<rparr> False))) =
     [ExistsResp 43] \<and>
   queue_of (fst (Poll poll_demo 0 \<lparr>allowExpunge = True\<rparr> \<lparr>sent = [], fails_after = None\<rparr> True)) 0 = [] \<and>
   sent (fst (snd (Poll poll_demo 0 \<lparr>allowExpunge = True\<rparr> \<lparr>sent = [], fails_after = None\<rparr> True))) =
     [ExistsResp 43, ExpungeResp 3, FlagsResp [''Seen'']]"
proof -
  let ?c = "\<lparr>sent = [], fails_after = None\<rparr>"
  obtain wf cf rf where pf: "Poll poll_demo 0 \<lparr>allowExpunge = False\<rparr> ?c False = (wf, cf, rf)"
    by (cases "Poll poll_demo 0 \<lparr>allowExpunge = False\<rparr> ?c False") auto
  obtain wt ct rt where pt: "Poll poll_demo 0 \<lparr>allowExpunge = True\<rparr> ?c True = (wt, ct, rt)"
    by (cases "Poll poll_demo 0 \<lparr>allowExpunge = True\<rparr> ?c True") auto
  note f = Poll_partial_drain [OF poll_demo_heap, of "\<lparr>allowExpunge = False\<rparr>" ?c wf cf rf]
  note t = Poll_partial_drain [OF poll_demo_heap, of "\<lparr>allowExpunge = True\<rparr>" ?c wt ct rt]
  have okf: "rf = NoError"
    using f [THEN conjunct2, THEN conjunct2, THEN conjunct1] pf by (simp add: delivery_def)
  have okt: "rt = NoError"
    using t [THEN conjunct2, THEN conjunct2, THEN conjunct2] pt by (simp add: delivery_def)
  have qf: "queue_of wf 0 =
     [\<lparr>expunge = 3, numMessages = 0, mailboxFlags = None, fetch = None\<rparr>,
      \<lparr>expunge = 0, numMessages = 0, mailboxFlags = Some [''Seen''], fetch = None\<rparr>]"
    using f [THEN conjunct1] pf by simp
  have qt: "queue_of wt 0 = []"
    using t [THEN conjunct2, THEN conjunct1] pt by simp
  have "map Some (sent cf) = map Some [ExistsResp 43]"
    using f [THEN conjunct1] pf okf by (simp add: delivery_def)
  then have sf: "sent cf = [ExistsResp 43]"
    by (simp only: inj_map_eq_map [OF inj_Some])
  have "map Some (sent ct) = map Some [ExistsResp 43, ExpungeResp 3, FlagsResp [''Seen'']]"
    using t [THEN conjunct2, THEN conjunct1] pt okt by (simp add: delivery_def)
  then have st: "sent ct = [ExistsResp 43, ExpungeResp 3, FlagsResp [''Seen'']]"
    by (simp only: inj_map_eq_map [OF inj_Some])
  show ?thesis
    by (simp add: pf pt qf qt sf st)
qed

subsection \<open>C6: the range checks of the notifications\<close>

lemma QueueExpunge_panics_iff:
  "(\<exists>p. QueueExpunge w n = Inl p) \<longleftrightarrow> n = 0 \<or> n > count (tracker w)"
  by (auto simp: QueueExpunge_def MailboxTracker_queueUpdate_def Let_def)

lemma QueueNumMessages_panics_iff:
  "(\<exists>p. QueueNumMessages w n = Inl p) \<longleftrightarrow> n \<noteq> 0 \<and> n < count (tracker w)"
  by (auto simp: QueueNumMessages_def MailboxTracker_queueUpdate_def Let_def)

text \<open>
  C6. \<open>QueueExpunge\<close> panics exactly when the position is 0 or above the canonical count,
  and \<open>QueueNumMessages\<close> is to panic exactly when the new count is below the canonical
  one. The source tells a grow update by \<open>numMessages \<noteq> 0\<close>, so the new count 0 escapes
  the check: on a mailbox of 5 messages \<open>QueueNumMessages 0\<close> does not panic, the count
  stays 5, and every session is handed an update of no kind, on which its next \<open>Poll\<close>
  panics.
\<close>

theorem QueueNumMessages_zero_not_rejected:
  "case run_ops (NewMailboxTracker 5) [OpNewSession, OpQueueNumMessages 0] of
     Inl p \<Rightarrow> False
   | Inr w \<Rightarrow>
       count (tracker w) = 5 \<and>
       queue_of w 0 = [\<lparr>expunge = 0, numMessages = 0, mailboxFlags = None, fetch = None\<rparr>] \<and>
       snd (snd (Poll w 0 \<lparr>allowExpunge = True\<rparr> \<lparr>sent = [], fails_after = None\<rparr> True)) =
         Panicked UnknownUpdate"
  by (simp add: tracker_defs queue_of_def poll_defs)

subsection \<open>C7: updates before the completion\<close>








subsection \<open>C8: closing the client fails every pending command\<close>







text \<open>What \<open>beginCommand\<close> leaves: one more pending command, and all of them completable.\<close>

lemma beginCommand_completable:
  assumes "objs c p = Some cmd" and "p \<notin> set (pendingCmds c)" and "distinct (pendingCmds c)"
    and "\<forall>q\<in>set (pendingCmds c). completable c q"
    and "\<not> is_closed (stream cmd)"
    and "pendingData cmd = None \<or> length (items (stream cmd)) < cap (stream cmd)"
  shows "\<exists>c'. beginCommand c p = Inr c' \<and> pendingCmds c' = pendingCmds c @ [p] \<and>
           distinct (pendingCmds c') \<and> (\<forall>q\<in>set (pendingCmds c'). completable c' q)"
  using assms by (auto simp: beginCommand_def completable_def)




subsection \<open>C9: zero is a fixed point\<close>

text \<open>
  C9. For every session, whatever its pending queue and the canonical count (and even
  for a nil or closed session), \<open>DecodeSeqNum 0\<close> and \<open>EncodeSeqNum 0\<close> are 0.
\<close>

theorem seqnum_zero_fixed_point: "DecodeSeqNum w st 0 = Inr 0 \<and> EncodeSeqNum w st 0 = Inr 0"
  by (simp add: DecodeSeqNum_def EncodeSeqNum_def)

subsection \<open>C10: one Idle at a time\<close>

lemma run_op_keeps:
  assumes "run_op w x = Inr w'" and "heap w st \<noteq> None" and "st < next_ptr w"
  shows "heap w' st \<noteq> None \<and> st < next_ptr w' \<and>
         (updates_of w' st = None \<longleftrightarrow> updates_of w st = None)"
proof (cases x)
  case OpNewSession
  with assms show ?thesis by (auto simp: NewSession_def Let_def updates_of_def)
next
  case (OpClose s)
  with assms show ?thesis
    by (auto simp: Close_def updates_of_def split: option.splits if_splits)
next
  case (OpQueueExpunge n)
  with assms have "\<exists>u. MailboxTracker_queueUpdate w u None = Inr w'"
    by (auto simp: QueueExpunge_def split: if_splits)
  then obtain u where u: "MailboxTracker_queueUpdate w u None = Inr w'" ..
  show ?thesis
    using queueUpdate_effect(1) [OF u, of st] queueUpdate_effect(3) [OF u] assms(2,3)
    by (auto simp: updates_of_def SessionTracker_queueUpdate_def split: option.splits)
next
  case (OpQueueNumMessages n)
  with assms have u: "MailboxTracker_queueUpdate w
      \<lparr>expunge = 0, numMessages = n, mailboxFlags = None, fetch = None\<rparr> None = Inr w'"
    by (simp add: QueueNumMessages_def)
  show ?thesis
    using queueUpdate_effect(1) [OF u, of st] queueUpdate_effect(3) [OF u] assms(2,3)
    by (auto simp: updates_of_def SessionTracker_queueUpdate_def split: option.splits)
next
  case (OpQueueMailboxFlags fl)
  with assms have "\<exists>u. MailboxTracker_queueUpdate w u None = Inr w'"
    by (auto simp: QueueMailboxFlags_def)
  then obtain u where u: "MailboxTracker_queueUpdate w u None = Inr w'" ..
  show ?thesis
    using queueUpdate_effect(1) [OF u, of st] queueUpdate_effect(3) [OF u] assms(2,3)
    by (auto simp: updates_of_def SessionTracker_queueUpdate_def split: option.splits)
next
  case (OpQueueMessageFlags n u' fl src)
  with assms have "\<exists>u. MailboxTracker_queueUpdate w u src = Inr w'"
    by (auto simp: QueueMessageFlags_def)
  then obtain u where u: "MailboxTracker_queueUpdate w u src = Inr w'" ..
  show ?thesis
    using queueUpdate_effect(1) [OF u, of st] queueUpdate_effect(3) [OF u] assms(2,3)
    by (auto simp: updates_of_def SessionTracker_queueUpdate_def split: option.splits)
next
  case (OpPoll s uw c allow)
  obtain w1 c1 r1 where p: "Poll w s uw c allow = (w1, c1, r1)"
    by (cases "Poll w s uw c allow") auto
  with assms OpPoll have "w' = w1" by simp
  with Poll_effect(1) [OF p] Poll_effect(2,3) [OF p, of st] assms(2,3) show ?thesis by simp
qed

lemma Idle_enter_free:
  assumes "heap w st \<noteq> None" and "updates_of w st = None"
  shows "snd (Idle_enter w st) = NoError"
    and "updates_of (fst (Idle_enter w st)) st \<noteq> None"
    and "heap (fst (Idle_enter w st)) st \<noteq> None"
    and "next_ptr (fst (Idle_enter w st)) = next_ptr w"
  using assms by (auto simp: Idle_enter_def updates_of_def split: option.splits)

lemma Idle_enter_busy:
  assumes "updates_of w st \<noteq> None"
  shows "Idle_enter w st = (w, Failed IdleBusy)"
  using assms by (auto simp: Idle_enter_def updates_of_def split: option.splits)

lemma Idle_deferred_effect:
  "updates_of (Idle_deferred w st) st = None"
  "heap w st \<noteq> None \<Longrightarrow> heap (Idle_deferred w st) st \<noteq> None"
  "next_ptr (Idle_deferred w st) = next_ptr w"
  by (auto simp: Idle_deferred_def updates_of_def split: option.splits)

lemma Idle_select_effect:
  assumes "Idle_select w st uw c ev = (w', c', res)" and "heap w st \<noteq> None"
    and "updates_of w st \<noteq> None"
  shows "heap w' st \<noteq> None \<and> next_ptr w' = next_ptr w \<and>
         (res = None \<longrightarrow> updates_of w' st \<noteq> None) \<and>
         (res \<noteq> None \<longrightarrow> updates_of w' st = None)"
proof (cases ev)
  case StopClosed
  with assms have "w' = Idle_deferred w st" "res = Some NoError"
    by (auto simp: Idle_select_def)
  with Idle_deferred_effect(2) [OF assms(2)] show ?thesis
    by (simp add: Idle_deferred_effect(1,3))
next
  case UpdatesReady
  from assms(2) obtain t where t: "heap w st = Some t" by auto
  show ?thesis
  proof (cases "updates t")
    case None
    with assms t show ?thesis by (simp add: updates_of_def)
  next
    case (Some k')
    show ?thesis
    proof (cases k')
      case 0
      with Some assms t UpdatesReady show ?thesis
        by (auto simp: Idle_select_def updates_of_def)
    next
      case (Suc k)
      let ?w1 = "w\<lparr>heap := (heap w)(st := Some (t\<lparr>updates := Some k\<rparr>))\<rparr>"
      obtain w2 c2 r2 where p: "Poll ?w1 st uw c True = (w2, c2, r2)"
        by (cases "Poll ?w1 st uw c True") auto
      have e: "next_ptr w2 = next_ptr w" "heap w2 st \<noteq> None" "updates_of w2 st = Some k"
        using Poll_effect(1) [OF p] Poll_effect(2,3) [OF p, of st] by (simp_all add: updates_of_def)
      show ?thesis
      proof (cases "r2 = NoError")
        case True
        with assms(1) UpdatesReady t Some Suc p have "w' = w2" "res = None"
          by (auto simp: Idle_select_def)
        with e show ?thesis by simp
      next
        case False
        with assms(1) UpdatesReady t Some Suc p have "w' = Idle_deferred w2 st" "res \<noteq> None"
          by (auto simp: Idle_select_def split: result.splits)
        with e Idle_deferred_effect(2) [OF e(2)] show ?thesis
          by (simp add: Idle_deferred_effect(1,3))
      qed
    qed
  qed
qed

lemma sys_step_inv:
  assumes "idle_inv st s"
  shows "idle_inv st (sys_step st uw s a)"
proof (cases a)
  case (CallIdle tid)
  show ?thesis
  proof (cases "calls s tid = NotCalled")
    case False
    with CallIdle assms show ?thesis by (simp add: sys_step_def)
  next
    case True
    show ?thesis
    proof (cases "updates_of (sys_world s) st = None")
      case free: True
      with assms have h: "heap (sys_world s) st \<noteq> None" and none: "\<forall>a. calls s a \<noteq> Active"
        by (auto simp: idle_inv_def)
      obtain w1 where w1: "Idle_enter (sys_world s) st = (w1, NoError)"
        using Idle_enter_free(1) [OF h free] by (cases "Idle_enter (sys_world s) st") auto
      with Idle_enter_free(2-4) [OF h free] assms none CallIdle True show ?thesis
        by (auto simp: sys_step_def idle_inv_def)
    next
      case busy: False
      with assms obtain aa where aa: "calls s aa = Active" by (auto simp: idle_inv_def)
      with True have ne: "aa \<noteq> tid" by auto
      have s': "sys_step st uw s a = s\<lparr>calls := (calls s)(tid := Returned (Failed IdleBusy))\<rparr>"
        using Idle_enter_busy [OF busy] CallIdle True by (simp add: sys_step_def)
      have "\<exists>x. ((calls s)(tid := Returned (Failed IdleBusy))) x = Active"
        using aa ne by (intro exI [of _ aa]) simp
      with assms busy show ?thesis
        unfolding s' by (auto simp: idle_inv_def)
    qed
  qed
next
  case (Select tid ev)
  show ?thesis
  proof (cases "calls s tid = Active")
    case False
    with Select assms show ?thesis by (simp add: sys_step_def)
  next
    case True
    with assms have h: "heap (sys_world s) st \<noteq> None" and u: "updates_of (sys_world s) st \<noteq> None"
      and only: "\<forall>a. calls s a = Active \<longrightarrow> a = tid"
      by (auto simp: idle_inv_def)
    obtain w1 c1 res where r: "Idle_select (sys_world s) st uw (wires s tid) ev = (w1, c1, res)"
      by (cases "Idle_select (sys_world s) st uw (wires s tid) ev") auto
    from Idle_select_effect [OF r h u] assms only True Select r show ?thesis
      by (cases res) (auto simp: sys_step_def idle_inv_def)
  qed
next
  case (Other x)
  show ?thesis
  proof (cases "run_op (sys_world s) x")
    case (Inl p)
    with Other assms show ?thesis by (simp add: sys_step_def)
  next
    case (Inr w1)
    from assms have "heap (sys_world s) st \<noteq> None" "st < next_ptr (sys_world s)"
      by (auto simp: idle_inv_def)
    from run_op_keeps [OF Inr this] assms Other Inr show ?thesis
      by (auto simp: sys_step_def idle_inv_def)
  qed
qed

lemma sys_run_inv: "idle_inv st s \<Longrightarrow> idle_inv st (sys_run st uw s acts)"
  unfolding sys_run_def by (induction acts arbitrary: s) (simp_all add: sys_step_inv)

lemma sys_init_inv:
  "heap w st = Some t \<Longrightarrow> updates t = None \<Longrightarrow> st < next_ptr w \<Longrightarrow> idle_inv st (sys_init w cs)"
  by (simp add: idle_inv_def sys_init_def updates_of_def)

text \<open>
  C10. Whatever the callers of \<open>Idle\<close> on a session and the other goroutines do, in any
  order: at most one call of \<open>Idle\<close> is active; while one is, another call returns the
  error at once and leaves the tracker, hence the pending queue, as it is; when the active
  call ends, with any result, a new call is accepted, as it is whenever no call is
  active.
\<close>

theorem Idle_exclusive:
  assumes "heap w0 st = Some t0" and "updates t0 = None" and "st < next_ptr w0"
    and "s = sys_run st uw (sys_init w0 cs) acts"
  shows "(calls s a = Active \<and> calls s b = Active \<longrightarrow> a = b) \<and>
         (calls s a = Active \<longrightarrow>
            Idle (sys_world s) st uw2 c evs = (sys_world s, c, Some (Failed IdleBusy))) \<and>
         (calls s a = Active \<and> Idle_select (sys_world s) st uw c ev = (w', c', Some r) \<longrightarrow>
            snd (Idle_enter w' st) = NoError) \<and>
         ((\<forall>a. calls s a \<noteq> Active) \<longrightarrow> snd (Idle_enter (sys_world s) st) = NoError)"
proof -
  have inv: "idle_inv st s"
    unfolding assms(4) by (rule sys_run_inv [OF sys_init_inv [OF assms(1-3)]])
  show ?thesis
  proof (intro conjI impI)
    assume "calls s a = Active \<and> calls s b = Active"
    with inv show "a = b" by (auto simp: idle_inv_def)
  next
    assume "calls s a = Active"
    with inv have "updates_of (sys_world s) st \<noteq> None" by (auto simp: idle_inv_def)
    then show "Idle (sys_world s) st uw2 c evs = (sys_world s, c, Some (Failed IdleBusy))"
      by (simp add: Idle_def Idle_enter_busy)
  next
    assume a: "calls s a = Active \<and> Idle_select (sys_world s) st uw c ev = (w', c', Some r)"
    with inv have h: "heap (sys_world s) st \<noteq> None" and u: "updates_of (sys_world s) st \<noteq> None"
      by (auto simp: idle_inv_def)
    from a have sel: "Idle_select (sys_world s) st uw c ev = (w', c', Some r)" by simp
    from Idle_select_effect [OF sel h u]
    have "heap w' st \<noteq> None" "updates_of w' st = None" by simp_all
    then show "snd (Idle_enter w' st) = NoError" by (rule Idle_enter_free(1))
  next
    assume "\<forall>a. calls s a \<noteq> Active"
    with inv have "heap (sys_world s) st \<noteq> None" "updates_of (sys_world s) st = None"
      by (auto simp: idle_inv_def)
    then show "snd (Idle_enter (sys_world s) st) = NoError" by (rule Idle_enter_free(1))
  qed
qed

lemma demo_heap: "heap (scenario 42 [OpNewSession]) 0 = Some \<lparr>mailbox = True, queue = [], updates = None\<rparr>"
  by (simp add: scenario_def tracker_defs)

lemma demo_next: "0 < next_ptr (scenario 42 [OpNewSession])"
  by (simp add: scenario_def tracker_defs)

lemma demo_calls1:
  "calls (idle_demo [CallIdle 2, CallIdle 3]) 2 = Active"
  "calls (idle_demo [CallIdle 2, CallIdle 3]) 3 = Returned (Failed IdleBusy)"
  by (simp_all add: idle_defs tracker_defs)

lemma demo_calls2:
  "calls (idle_demo [CallIdle 2, CallIdle 3, Other (OpQueueExpunge 20), Select 2 UpdatesReady,
       Select 2 StopClosed]) =
     (\<lambda>_. NotCalled)(2 := Returned NoError, 3 := Returned (Failed IdleBusy))"
  "sent (wires (idle_demo [CallIdle 2, CallIdle 3, Other (OpQueueExpunge 20), Select 2 UpdatesReady,
       Select 2 StopClosed]) 2) = [ExpungeResp 20]"
  by (simp_all add: idle_defs tracker_defs poll_defs fun_eq_iff)

lemma demo_select:
  "Idle_select (sys_world (idle_demo [CallIdle 2, CallIdle 3])) 0 \<lparr>allowExpunge = True\<rparr>
      \<lparr>sent = [], fails_after = None\<rparr> StopClosed =
   (Idle_deferred (sys_world (idle_demo [CallIdle 2, CallIdle 3])) 0,
      \<lparr>sent = [], fails_after = None\<rparr>, Some NoError)"
  by (simp add: Idle_select_def)

text \<open>
  The theorem for two callers: the second is turned away while the first is active, and
  a call is accepted again after the first has ended.
\<close>

theorem Idle_exclusive_witness:
  "calls (idle_demo [CallIdle 2, CallIdle 3]) 2 = Active \<and>
   calls (idle_demo [CallIdle 2, CallIdle 3]) 3 = Returned (Failed IdleBusy) \<and>
   Idle (sys_world (idle_demo [CallIdle 2, CallIdle 3])) 0 \<lparr>allowExpunge = True\<rparr>
       \<lparr>sent = [], fails_after = None\<rparr> [StopClosed] =
     (sys_world (idle_demo [CallIdle 2, CallIdle 3]), \<lparr>sent = [], fails_after = None\<rparr>,
      Some (Failed IdleBusy)) \<and>
   snd (Idle_enter (Idle_deferred (sys_world (idle_demo [CallIdle 2, CallIdle 3])) 0) 0) = NoError \<and>
   snd (Idle_enter (sys_world (idle_demo [CallIdle 2, CallIdle 3, Other (OpQueueExpunge 20),
      Select 2 UpdatesReady, Select 2 StopClosed])) 0) = NoError"
proof -
  have u: "updates \<lparr>mailbox = True, queue = [], updates = None\<rparr> = None" by simp
  note one = Idle_exclusive [OF demo_heap u demo_next idle_demo_def, of "[CallIdle 2, CallIdle 3]" 2 2
      "\<lparr>allowExpunge = True\<rparr>" "\<lparr>sent = [], fails_after = None\<rparr>" "[StopClosed]" StopClosed
      "Idle_deferred (sys_world (idle_demo [CallIdle 2, CallIdle 3])) 0"
      "\<lparr>sent = [], fails_after = None\<rparr>" NoError]
  note two = Idle_exclusive [OF demo_heap u demo_next idle_demo_def,
      of "[CallIdle 2, CallIdle 3, Other (OpQueueExpunge 20), Select 2 UpdatesReady,
          Select 2 StopClosed]" 2 2]
  have busy: "Idle (sys_world (idle_demo [CallIdle 2, CallIdle 3])) 0 \<lparr>allowExpunge = True\<rparr>
       \<lparr>sent = [], fails_after = None\<rparr> [StopClosed] =
     (sys_world (idle_demo [CallIdle 2, CallIdle 3]), \<lparr>sent = [], fails_after = None\<rparr>,
      Some (Failed IdleBusy))"
    using one [THEN conjunct2, THEN conjunct1] by (simp add: demo_calls1)
  have again: "snd (Idle_enter (Idle_deferred (sys_world (idle_demo [CallIdle 2, CallIdle 3])) 0) 0) =
     NoError"
    using one [THEN conjunct2, THEN conjunct2, THEN conjunct1]
    by (simp add: demo_calls1 demo_select)
  have none: "\<forall>a. calls (idle_demo [CallIdle 2, CallIdle 3, Other (OpQueueExpunge 20),
      Select 2 UpdatesReady, Select 2 StopClosed]) a \<noteq> Active"
    by (simp add: demo_calls2)
  have free: "snd (Idle_enter (sys_world (idle_demo [CallIdle 2, CallIdle 3,
      Other (OpQueueExpunge 20), Select 2 UpdatesReady, Select 2 StopClosed])) 0) = NoError"
    using two [THEN conjunct2, THEN conjunct2, THEN conjunct2] none by (rule mp)
  show ?thesis
    using busy again free by (simp add: demo_calls1)
qed

end
